theory Spec2Isabelle
  imports
    Main
    "HOL-Library.Char_ord"
    "HOL-Library.List_Lexorder"
    "HOL-Library.Multiset"
    "HOL-Library.Sublist"
begin

section \<open>The BWT server: a shallow embedding of ServerLauraRuffoni.py\<close>

text \<open>
  The parser, the validator and the two transforms are modelled on Python strings whose
  code points lie below 256, written as \<^typ>\<open>string\<close> (lists of 8-bit characters).
  Strings are compared as Python compares them: character by character by code point, a
  proper prefix being smaller (\<open>Char_ord\<close> and \<open>List_Lexorder\<close>). A numpy array of objects
  is a list; \<open>np.sort\<close> on it is \<^const>\<open>sort\<close>, since a linear order has exactly one
  sorted arrangement of a given collection. What travels over the socket is a sequence of
  bytes, also a \<^typ>\<open>string\<close>; \<open>decode\<close> is Python's strict UTF-8 decoder, which yields
  code points of any size (natural numbers) or raises, and \<open>encode\<close> is the UTF-8
  encoder on the characters of the model.
\<close>

subsection \<open>Errors\<close>

text \<open>
  The exceptions that the modelled code raises: \<open>IndexError\<close> in the inverse transform,
  \<open>UnicodeDecodeError\<close> when the received bytes are decoded.
\<close>

datatype error = IndexError | UnicodeDecodeError

subsection \<open>String primitives of Python\<close>

text \<open>\<open>s.startswith(p)\<close>\<close>

definition startswith :: "string \<Rightarrow> string \<Rightarrow> bool" where
  "startswith s p = prefix p s"

text \<open>\<open>pat in s\<close> on strings and on byte sequences: \<open>pat\<close> occurs as a contiguous block.\<close>

fun contains :: "'a list \<Rightarrow> 'a list \<Rightarrow> bool" where
  "contains pat [] = (pat = [])"
| "contains pat (c # cs) = (prefix pat (c # cs) \<or> contains pat cs)"

text \<open>
  \<open>s.replace(old, new)\<close>: a single scan from the left that replaces every
  non-overlapping occurrence of \<open>old\<close>; with an empty \<open>old\<close>, Python inserts \<open>new\<close>
  before every character and at the end. It is used on the strings of the model and on
  decoded text, hence on lists of any element type.
\<close>

function replace :: "'a list \<Rightarrow> 'a list \<Rightarrow> 'a list \<Rightarrow> 'a list" where
  "replace old new [] = (if old = [] then new else [])"
| "replace old new (c # cs) =
     (if old = [] then new @ c # replace old new cs
      else if prefix old (c # cs) then new @ replace old new (drop (length old) (c # cs))
      else c # replace old new cs)"
  by pat_completeness auto
termination
  by (relation "measure (\<lambda>(old, new, s). length s)") auto

text \<open>\<open>sep.join(xs)\<close>\<close>

fun join :: "string \<Rightarrow> string list \<Rightarrow> string" where
  "join sep [] = []"
| "join sep [x] = x"
| "join sep (x # y # ys) = x @ sep @ join sep (y # ys)"

text \<open>\<open>s.split("\n")\<close> for a one-character separator: never empty, \<open>"".split("\n") = [""]\<close>.\<close>

fun split :: "char \<Rightarrow> string \<Rightarrow> string list" where
  "split sep [] = [[]]"
| "split sep (c # cs) =
     (let r = split sep cs in if c = sep then [] # r else (c # hd r) # tl r)"

text \<open>\<open>s.strip("\n")\<close>: drops the newlines at both ends.\<close>

definition strip_nl :: "string \<Rightarrow> string" where
  "strip_nl s = rev (dropWhile (\<lambda>c. c = CHR 0x0A) (rev (dropWhile (\<lambda>c. c = CHR 0x0A) s)))"

text \<open>
  \<open>c.upper()\<close> on one character. On the characters of the model only the ASCII letters
  \<open>a\<close> to \<open>z\<close> are mapped into the range \<open>A\<close> to \<open>Z\<close>; what Python returns for any other
  character below 256 lies outside the alphabet of \<open>validate_input\<close>, as the character
  itself does, so the membership test that follows is not affected by leaving those
  characters unchanged.
\<close>

definition upper :: "char \<Rightarrow> char" where
  "upper c =
     (case map_of (zip ''abcdefghijklmnopqrstuvwxyz'' ''ABCDEFGHIJKLMNOPQRSTUVWXYZ'') c of
        None \<Rightarrow> c
      | Some u \<Rightarrow> u)"

subsection \<open>validate_input\<close>

definition validDNA :: "char list" where
  "validDNA = [CHR ''A'', CHR ''C'', CHR ''G'', CHR ''T'', CHR ''R'', CHR ''Y'', CHR ''S'',
     CHR ''W'', CHR ''K'', CHR ''M'', CHR ''B'', CHR ''D'', CHR ''H'', CHR ''V'', CHR ''N'',
     CHR ''-'']"

text \<open>
  The \<open>try\<close> block raises \<open>Errore\<close> on an empty or ill-formed sequence and the handler
  right below turns it into \<open>False\<close>; nothing escapes.
\<close>

definition validate_input :: "string \<Rightarrow> bool" where
  "validate_input seq =
     (let seq = replace ''$'' [] seq
      in if length seq = 0 \<or> \<not> list_all (\<lambda>nucl. upper nucl \<in> set validDNA) seq
         then False else True)"

subsection \<open>DNAtoBWT\<close>

text \<open>
  One pass of the first loop: \<open>word = word[-1] + word[:(len(word) - 1)]\<close>. The loop runs
  \<open>len(word)\<close> times, so the body never sees the empty word.
\<close>

definition rot :: "string \<Rightarrow> string" where
  "rot word = last word # butlast word"

text \<open>The first loop: \<open>k\<close> more passes, each storing the rotated word.\<close>

fun rotations :: "nat \<Rightarrow> string \<Rightarrow> string list" where
  "rotations 0 word = []"
| "rotations (Suc k) word = (let word = rot word in word # rotations k word)"

definition DNAtoBWT :: "string \<Rightarrow> string" where
  "DNAtoBWT word =
     (let arr_perm = rotations (length word) word;
          arr_perm = sort arr_perm
      in map last arr_perm)"

subsection \<open>BWTtoDNA\<close>

text \<open>
  \<open>word\<close> is the array of the one-character strings of the input; \<open>word + sort_word\<close>
  concatenates the two arrays row by row. Reading \<open>sort_word[0]\<close> of an empty array
  raises \<open>IndexError\<close>.
\<close>

text \<open>The length of the shortest row, the quantity that grows with every pass of the loop.\<close>

definition minlen :: "string list \<Rightarrow> nat" where
  "minlen rows = Min (length ` set rows)"

definition BWT_step :: "string \<Rightarrow> string list \<Rightarrow> string list" where
  "BWT_step word sort_word = sort (map2 (\<lambda>c row. [c] @ row) word sort_word)"

function BWT_loop :: "string \<Rightarrow> string list \<Rightarrow> error + string list" where
  "BWT_loop word sort_word =
     (case sort_word of
        [] \<Rightarrow> Inl IndexError
      | row0 # _ \<Rightarrow>
          if length sort_word > length row0 then BWT_loop word (BWT_step word sort_word)
          else Inr sort_word)"
  by pat_completeness auto
termination
proof (relation "measure (\<lambda>(word, rows). length rows - minlen rows)")
  show "wf (measure (\<lambda>(word, rows). length rows - minlen rows))"
    by simp
next
  fix word :: string and sort_word :: "string list" and row0 rest
  assume eq: "sort_word = row0 # rest" and gt: "length row0 < length sort_word"
  let ?new = "map2 (\<lambda>c row. [c] @ row) word sort_word"
  have shortest: "minlen sort_word \<le> length row0"
    using eq by (simp add: minlen_def)
  have len: "length (BWT_step word sort_word) \<le> length sort_word"
    by (simp add: BWT_step_def)
  show "((word, BWT_step word sort_word), (word, sort_word))
        \<in> measure (\<lambda>(word, rows). length rows - minlen rows)"
  proof (cases "BWT_step word sort_word = []")
    case True
    then show ?thesis
      using shortest gt by simp
  next
    case False
    then have ne: "set ?new \<noteq> {}"
      by (auto simp: BWT_step_def)
    have "\<forall>y \<in> set ?new. Suc (minlen sort_word) \<le> length y"
    proof
      fix y
      assume "y \<in> set ?new"
      then obtain c r where "(c, r) \<in> set (zip word sort_word)" and y: "y = [c] @ r"
        by auto
      then have "r \<in> set sort_word"
        by (auto dest: set_zip_rightD)
      then have "minlen sort_word \<le> length r"
        by (simp add: minlen_def)
      then show "Suc (minlen sort_word) \<le> length y"
        using y by simp
    qed
    then have "Suc (minlen sort_word) \<le> minlen (BWT_step word sort_word)"
      using ne by (simp add: minlen_def BWT_step_def)
    then show ?thesis
      using shortest gt len by simp
  qed
qed

declare BWT_loop.simps [simp del]

text \<open>
  The list comprehension \<open>[perm for perm in sort_word if perm[-1] == "$"]\<close>; reading
  \<open>perm[-1]\<close> of an empty row raises \<open>IndexError\<close>.
\<close>

fun select_rows :: "string list \<Rightarrow> error + string list" where
  "select_rows [] = Inr []"
| "select_rows (perm # rest) =
     (if perm = [] then Inl IndexError
      else case select_rows rest of
             Inl e \<Rightarrow> Inl e
           | Inr res \<Rightarrow> Inr (if last perm = CHR ''$'' then perm # res else res))"

text \<open>The initial value of \<open>sort_word\<close>: the sorted one-character strings of the input.\<close>

definition first_column :: "string \<Rightarrow> string list" where
  "first_column word = sort (map (\<lambda>c. [c]) word)"

definition BWTtoDNA :: "string \<Rightarrow> error + string" where
  "BWTtoDNA word =
     (case BWT_loop word (first_column word) of
        Inl e \<Rightarrow> Inl e
      | Inr sort_word \<Rightarrow>
          (case select_rows sort_word of
             Inl e \<Rightarrow> Inl e
           | Inr [] \<Rightarrow> Inl IndexError
           | Inr (res # _) \<Rightarrow> Inr res))"

text \<open>The value of \<open>sort_word\<close> after \<open>k\<close> passes of the loop.\<close>

definition BWT_rows :: "string \<Rightarrow> nat \<Rightarrow> string list" where
  "BWT_rows word k = (BWT_step word ^^ k) (first_column word)"

subsection \<open>checkAndTranslate\<close>

text \<open>Python returns \<open>False\<close> for a rejected message and a pair of lists otherwise.\<close>

datatype result = Rejected | Accepted "string list" "string list"

definition is_header :: "string \<Rightarrow> bool" where
  "is_header line = (startswith line ''>'' \<or> startswith line ''<'')"

text \<open>\<open>[line for line in msg.split("\n") if line != ""]\<close>\<close>

definition msg_lines :: "string \<Rightarrow> string list" where
  "msg_lines msg = filter (\<lambda>line. line \<noteq> []) (split CHR 0x0A msg)"

text \<open>
  The parsing loop, with the loop index \<open>i\<close> and the four variables it updates:
  \<open>error_headers\<close>, \<open>out\<close>, \<open>elem\<close> and \<open>header\<close>. An exception of \<open>BWTtoDNA\<close> ends it.
\<close>

fun parse_lines ::
  "nat \<Rightarrow> string list \<Rightarrow> string list \<Rightarrow> string list \<Rightarrow> string \<Rightarrow> string
     \<Rightarrow> error + (string list \<times> string list)" where
  "parse_lines i [] error_headers out elem header = Inr (error_headers, out)"
| "parse_lines i (line # rest) error_headers out elem header =
     (if startswith line ''>'' \<or> startswith line ''<'' then
        (if \<not> validate_input elem \<and> i > 0 then
           parse_lines (Suc i) rest (error_headers @ [header]) out [] line
         else if startswith header ''>'' then
           parse_lines (Suc i) rest error_headers
             (out @ [''< '' @ drop 1 header, DNAtoBWT (elem @ ''$'')]) [] line
         else if startswith header ''<'' then
           (case BWTtoDNA elem of
              Inl e \<Rightarrow> Inl e
            | Inr dna \<Rightarrow>
                parse_lines (Suc i) rest error_headers
                  (out @ [''> '' @ drop 1 header, dna]) [] line)
         else parse_lines (Suc i) rest error_headers out [] line)
      else parse_lines (Suc i) rest error_headers out (elem @ strip_nl line) header)"

definition checkAndTranslate :: "string \<Rightarrow> error + result" where
  "checkAndTranslate msg =
     (let lines = msg_lines msg @ [''<'']
      in if length lines < 3 \<or> \<not> (startswith (lines ! 0) ''>'' \<or> startswith (lines ! 0) ''<'')
         then Inr Rejected
         else (case parse_lines 0 lines [] [] [] ''%%%'' of
                 Inl e \<Rightarrow> Inl e
               | Inr (error_headers, out) \<Rightarrow> Inr (Accepted error_headers out)))"

subsection \<open>output_manager\<close>

definition output_manager :: "string list \<Rightarrow> string list \<Rightarrow> string" where
  "output_manager error_headers out =
     (let final = [];
          final = (if length error_headers > 0
                   then final @ ''%%%'' @ join ''%%%'' error_headers @ [CHR 0x0A]
                   else final)
      in final @ join [CHR 0x0A] out)"

subsection \<open>handle_client and the receiving side of client_connect\<close>

text \<open>
  The receive loop of both programs. The list holds what the successive calls of
  \<open>recv\<close> return; when it runs out before the terminator has been seen the loop never
  ends, which is the value \<open>None\<close>.
\<close>

fun recv_loop :: "string \<Rightarrow> string list \<Rightarrow> string option" where
  "recv_loop msg [] = None"
| "recv_loop msg (data # rest) =
     (let msg = msg @ data in if contains ''/0'' msg then Some msg else recv_loop msg rest)"

text \<open>
  \<open>bytes.decode()\<close>: strict UTF-8. A byte below \<open>0x80\<close> is its own code point; a lead byte
  announces one, two or three continuation bytes; the first continuation byte of the lead
  bytes \<open>0xE0\<close>, \<open>0xED\<close>, \<open>0xF0\<close> and \<open>0xF4\<close> has a narrower range, which excludes
  overlong forms, surrogates and code points above \<open>0x10FFFF\<close>. Anything else, a sequence
  cut short included, raises \<open>UnicodeDecodeError\<close>, wherever in the input it stands.
\<close>

definition continuation :: "nat \<Rightarrow> bool" where
  "continuation b = (0x80 \<le> b \<and> b \<le> 0xBF)"

fun utf8 :: "nat list \<Rightarrow> error + nat list" where
  "utf8 [] = Inr []"
| "utf8 (b # bs) =
     (if b < 0x80 then
        (case utf8 bs of Inl e \<Rightarrow> Inl e | Inr text \<Rightarrow> Inr (b # text))
      else if 0xC2 \<le> b \<and> b \<le> 0xDF then
        (case bs of
           b1 # rest \<Rightarrow>
             if continuation b1 then
               (case utf8 rest of
                  Inl e \<Rightarrow> Inl e
                | Inr text \<Rightarrow> Inr (((b - 0xC0) * 64 + (b1 - 0x80)) # text))
             else Inl UnicodeDecodeError
         | _ \<Rightarrow> Inl UnicodeDecodeError)
      else if 0xE0 \<le> b \<and> b \<le> 0xEF then
        (case bs of
           b1 # b2 # rest \<Rightarrow>
             if (if b = 0xE0 then 0xA0 \<le> b1 \<and> b1 \<le> 0xBF
                 else if b = 0xED then 0x80 \<le> b1 \<and> b1 \<le> 0x9F
                 else continuation b1) \<and> continuation b2 then
               (case utf8 rest of
                  Inl e \<Rightarrow> Inl e
                | Inr text \<Rightarrow>
                    Inr (((b - 0xE0) * 4096 + (b1 - 0x80) * 64 + (b2 - 0x80)) # text))
             else Inl UnicodeDecodeError
         | _ \<Rightarrow> Inl UnicodeDecodeError)
      else if 0xF0 \<le> b \<and> b \<le> 0xF4 then
        (case bs of
           b1 # b2 # b3 # rest \<Rightarrow>
             if (if b = 0xF0 then 0x90 \<le> b1 \<and> b1 \<le> 0xBF
                 else if b = 0xF4 then 0x80 \<le> b1 \<and> b1 \<le> 0x8F
                 else continuation b1) \<and> continuation b2 \<and> continuation b3 then
               (case utf8 rest of
                  Inl e \<Rightarrow> Inl e
                | Inr text \<Rightarrow>
                    Inr (((b - 0xF0) * 262144 + (b1 - 0x80) * 4096 + (b2 - 0x80) * 64
                          + (b3 - 0x80)) # text))
             else Inl UnicodeDecodeError
         | _ \<Rightarrow> Inl UnicodeDecodeError)
      else Inl UnicodeDecodeError)"

definition decode :: "string \<Rightarrow> error + nat list" where
  "decode msg = utf8 (map of_char msg)"

text \<open>
  \<open>str.encode()\<close> on the characters of the model: one byte below \<open>0x80\<close>, two bytes from
  there to \<open>0xFF\<close>.
\<close>

definition encode :: "string \<Rightarrow> string" where
  "encode text =
     concat (map (\<lambda>c. if of_char c < (0x80::nat) then [c]
                       else [char_of (0xC0 + of_char c div (64::nat)),
                             char_of (0x80 + of_char c mod (64::nat))]) text)"

text \<open>
  \<open>msg.decode().replace(end.decode(), "")\<close>, the same line in server and client: the
  decoded text without the terminator, or the exception of \<open>decode\<close>.
\<close>

definition strip_end :: "string \<Rightarrow> error + nat list" where
  "strip_end msg =
     (case decode msg of
        Inl e \<Rightarrow> Inl e
      | Inr text \<Rightarrow>
          (case decode ''/0'' of
             Inl e \<Rightarrow> Inl e
           | Inr end_text \<Rightarrow> Inr (replace end_text [] text)))"

text \<open>
  The receiving code of \<open>handle_client\<close> and of \<open>client_connect\<close>, from the empty buffer to
  the text that is parsed: \<open>None\<close> when the loop never ends, an exception when the
  buffer is not UTF-8.
\<close>

definition receive :: "string list \<Rightarrow> (error + nat list) option" where
  "receive chunks =
     (case recv_loop [] chunks of
        None \<Rightarrow> None
      | Some msg \<Rightarrow> Some (strip_end msg))"

definition error_reply :: string where
  "error_reply = ''Input Error: either empty file or no header in first line''"

text \<open>
  The rest of \<open>handle_client\<close>, from the text that is parsed on, for a text of the model:
  the bytes handed to \<open>sendall\<close>, or the exception that ends the process before anything
  is sent. A pair is always true in Python, \<open>False\<close> is not.
\<close>

definition reply :: "string \<Rightarrow> error + string" where
  "reply msg =
     (case checkAndTranslate msg of
        Inl e \<Rightarrow> Inl e
      | Inr Rejected \<Rightarrow> Inr (encode error_reply @ ''/0'')
      | Inr (Accepted error_headers out) \<Rightarrow>
          Inr (encode (output_manager error_headers out) @ ''/0''))"

section \<open>Notions of the specification\<close>

text \<open>The alphabet of the validator with the lower-case form of every letter added.\<close>

definition alphabet_any_case :: "char list" where
  "alphabet_any_case = ''ACGTRYSWKMBDHVN-acgtryswkmbdhvn''"

text \<open>
  The validator as the specification words it: at most one \<open>$\<close> is taken out of the
  body, then the body must be non-empty and made of alphabet characters in either case.
\<close>

definition validate_spec :: "string \<Rightarrow> bool" where
  "validate_spec body =
     (let stripped = remove1 (CHR ''$'') body
      in stripped \<noteq> [] \<and> list_all (\<lambda>c. c \<in> set alphabet_any_case) stripped)"

text \<open>
  Framing as the specification words it: \<open>res\<close> is what decoding gives for \<open>buf\<close> with
  exactly one occurrence of the terminator cut out and every other byte left in place.
\<close>

definition strips_exactly_one :: "string \<Rightarrow> error + nat list \<Rightarrow> bool" where
  "strips_exactly_one buf res =
     list_ex (\<lambda>i. take 2 (drop i buf) = ''/0'' \<and> res = decode (take i buf @ drop (i + 2) buf))
       [0..<length buf]"

text \<open>
  The records of a batch: every header line together with the sequence lines that follow
  it up to the next header line or the end of the message, concatenated.
\<close>

definition body_of :: "string list \<Rightarrow> string" where
  "body_of rest = concat (map strip_nl (takeWhile (\<lambda>l. \<not> is_header l) rest))"

fun records :: "string list \<Rightarrow> (string \<times> string) list" where
  "records [] = []"
| "records (line # rest) =
     (if is_header line then (line, body_of rest) # records rest else records rest)"

text \<open>The header of a transformed record: the opposite marker, a blank and the label.\<close>

definition out_header :: "string \<Rightarrow> string" where
  "out_header header = (if startswith header ''>'' then ''< '' else ''> '') @ drop 1 header"

text \<open>The body of a transformed record, in the direction that the marker of its header asks for.\<close>

definition out_body :: "string \<Rightarrow> string \<Rightarrow> string" where
  "out_body header body =
     (if startswith header ''>'' then DNAtoBWT (body @ ''$'')
      else (case BWTtoDNA body of Inr dna \<Rightarrow> dna | Inl e \<Rightarrow> []))"

text \<open>
  The treatment of one closed record after another, as the parsing loop applies it each
  time it meets the next header.
\<close>

fun emit_all ::
  "(string \<times> string) list \<Rightarrow> string list \<Rightarrow> string list
     \<Rightarrow> error + (string list \<times> string list)" where
  "emit_all [] errs out = Inr (errs, out)"
| "emit_all ((header, elem) # rs) errs out =
     (if \<not> validate_input elem then emit_all rs (errs @ [header]) out
      else if startswith header ''>'' then
        emit_all rs errs (out @ [''< '' @ drop 1 header, DNAtoBWT (elem @ ''$'')])
      else if startswith header ''<'' then
        (case BWTtoDNA elem of
           Inl e \<Rightarrow> Inl e
         | Inr dna \<Rightarrow> emit_all rs errs (out @ [''> '' @ drop 1 header, dna]))
      else emit_all rs errs out)"

section \<open>Properties\<close>

subsection \<open>The validator\<close>

lemma replace_dollar: "replace ''$'' [] s = filter (\<lambda>c. c \<noteq> CHR ''$'') s"
  by (induction s) auto

lemma upper_valid: "upper c \<in> set validDNA \<longleftrightarrow> c \<in> set alphabet_any_case"
  unfolding upper_def validDNA_def alphabet_any_case_def
  by (simp split: if_splits)

text \<open>
  Claim C2, as the code has it: \<open>validate_input\<close> is a total boolean function, and it
  answers \<open>True\<close> exactly when the body with every \<open>$\<close> removed (not just one) is
  non-empty and consists of characters that belong, case-insensitively, to the alphabet
  A, C, G, T, R, Y, S, W, K, M, B, D, H, V, N, -.
\<close>

theorem validate_input_all_dollars:
  "validate_input body \<longleftrightarrow>
     filter (\<lambda>c. c \<noteq> CHR ''$'') body \<noteq> [] \<and>
     list_all (\<lambda>c. c \<in> set alphabet_any_case) (filter (\<lambda>c. c \<noteq> CHR ''$'') body)"
  by (simp add: validate_input_def Let_def replace_dollar upper_valid)

theorem validate_input_all_dollars_witness:
  "validate_input ''aC$-$'' \<and> filter (\<lambda>c. c \<noteq> CHR ''$'') ''aC$-$'' = ''aC-''"
  using validate_input_all_dollars [of "''aC$-$''"]
  by (simp add: alphabet_any_case_def)

text \<open>
  A body with two \<open>$\<close> separates the code from the wording "at most one": the code
  accepts \<open>A$$\<close>, whereas after one \<open>$\<close> is stripped a \<open>$\<close> remains, which is no
  alphabet character.
\<close>

theorem validate_input_two_dollars:
  "validate_input ''A$$'' \<and> \<not> validate_spec ''A$$''"
  by (simp add: validate_input_def validate_spec_def upper_def validDNA_def
        alphabet_any_case_def)

subsection \<open>Framing\<close>

lemma utf8_ascii: "\<forall>b\<in>set bs. b < 0x80 \<Longrightarrow> utf8 bs = Inr bs"
  by (induction bs) simp_all

lemma decode_ascii:
  "\<forall>c\<in>set msg. of_char c < (0x80::nat) \<Longrightarrow> decode msg = Inr (map of_char msg)"
  by (simp add: decode_def utf8_ascii)

lemma decode_end: "decode ''/0'' = Inr [47, 48]"
  by (simp add: decode_def)

lemma strip_end_decoded:
  "decode buf = Inr text \<Longrightarrow> strip_end buf = Inr (replace [47, 48] [] text)"
  "decode buf = Inl e \<Longrightarrow> strip_end buf = Inl e"
  by (simp_all add: strip_end_def decode_end)

lemma replace_skip:
  "old \<noteq> [] \<Longrightarrow> \<not> prefix old (c # cs) \<Longrightarrow> replace old new (c # cs) = c # replace old new cs"
  by auto

lemma replace_end_first:
  "\<not> contains [47, 48] pre \<Longrightarrow>
     replace [47, 48] [] (pre @ [47, 48] @ post) = pre @ replace [47, 48] [] (post :: nat list)"
proof (induction pre)
  case Nil
  then show ?case
    by simp
next
  case (Cons c cs)
  then have np: "\<not> prefix [47, 48] (c # cs)" and nc: "\<not> contains [47, 48] cs"
    by auto
  have "\<not> prefix [47, 48] (c # (cs @ [47, 48] @ post))"
    using np by (cases cs) auto
  then have "replace [47, 48] [] (c # (cs @ [47, 48] @ post))
               = c # replace [47, 48] [] (cs @ [47, 48] @ post)"
    by (rule replace_skip[rotated]) simp
  then show ?case
    using Cons.IH[OF nc] by simp
qed

lemma replace_end_none:
  "\<not> contains [47, 48] s \<Longrightarrow> replace [47, 48] [] s = (s :: nat list)"
  by (induction s) auto

lemma prefix_map_of_char:
  "prefix (map of_char xs :: nat list) (map of_char ys) \<longleftrightarrow> prefix xs ys"
proof (induction xs arbitrary: ys)
  case Nil
  then show ?case
    by simp
next
  case (Cons x xs)
  then show ?case
    by (cases ys) auto
qed

lemma contains_map_of_char:
  "contains (map of_char pat :: nat list) (map of_char s) \<longleftrightarrow> contains pat s"
proof (induction s)
  case Nil
  then show ?case
    by simp
next
  case (Cons c cs)
  have "prefix (map of_char pat :: nat list) (map of_char (c # cs)) \<longleftrightarrow> prefix pat (c # cs)"
    by (rule prefix_map_of_char)
  then show ?case
    using Cons by simp
qed

lemma strip_end_ascii_payload:
  assumes ascii: "\<forall>c\<in>set payload. of_char c < (0x80::nat)"
    and free: "\<not> contains ''/0'' payload"
  shows "strip_end (payload @ ''/0'') = Inr (map of_char payload)"
proof -
  have "\<forall>c\<in>set (payload @ ''/0''). of_char c < (0x80::nat)"
    using ascii by simp
  then have d: "decode (payload @ ''/0'') = Inr (map of_char payload @ [47, 48] @ [])"
    using decode_ascii by simp
  have "contains (map of_char ''/0'' :: nat list) (map of_char payload) \<longleftrightarrow> contains ''/0'' payload"
    by (rule contains_map_of_char)
  then have nc: "\<not> contains [47, 48] (map of_char payload :: nat list)"
    using free by simp
  show ?thesis
    unfolding strip_end_decoded(1)[OF d] replace_end_first[OF nc] by simp
qed

text \<open>
  Claim C3, as the code has it: when the accumulated buffer is not valid UTF-8 the
  framing step of server and client raises and no text is parsed. Otherwise it removes
  from the decoded text every occurrence of the terminator \<open>/0\<close> (code points 47, 48)
  that a scan from the left meets, not one: the text before the first occurrence is
  kept, the occurrence is dropped and what follows is treated the same way; a text
  without the terminator is returned as it is. So an ASCII payload free of \<open>/0\<close> that
  is followed by the terminator comes back exactly.
\<close>

theorem strip_end_every_occurrence:
  "(decode buf = Inl e \<longrightarrow> strip_end buf = Inl e) \<and>
   (decode buf = Inr text \<longrightarrow> strip_end buf = Inr (replace [47, 48] [] text)) \<and>
   (\<not> contains [47, 48] pre \<longrightarrow>
      replace [47, 48] [] (pre @ [47, 48] @ post) = pre @ replace [47, 48] [] (post :: nat list) \<and>
      replace [47, 48] [] pre = pre) \<and>
   ((\<forall>c\<in>set payload. of_char c < (0x80::nat)) \<and> \<not> contains ''/0'' payload \<longrightarrow>
      strip_end (payload @ ''/0'') = Inr (map of_char payload))"
  using strip_end_decoded[of buf] replace_end_first[of pre post] replace_end_none[of pre]
    strip_end_ascii_payload[of payload]
  by blast

theorem strip_end_every_occurrence_witness:
  "decode ''>a/0b/0'' = Inr ([62, 97] @ [47, 48] @ [98, 47, 48]) \<and>
   \<not> contains [47, 48] [62, 97 :: nat] \<and>
   strip_end ''>a/0b/0'' = Inr (replace [47, 48] [] ([62, 97] @ [47, 48] @ [98, 47, 48])) \<and>
   replace [47, 48] [] ([62, 97] @ [47, 48] @ [98, 47, 48])
     = [62, 97] @ replace [47, 48] [] [98, 47, 48 :: nat] \<and>
   \<not> contains ''/0'' ''>a'' \<and>
   strip_end (''>a'' @ ''/0'') = Inr (map of_char ''>a'')"
proof -
  have d: "decode ''>a/0b/0'' = Inr ([62, 97] @ [47, 48] @ [98, 47, 48])"
    by code_simp
  have nc: "\<not> contains [47, 48] [62, 97 :: nat]"
    by simp
  have ascii: "\<forall>c\<in>set ''>a''. of_char c < (0x80::nat)"
    by simp
  have free: "\<not> contains ''/0'' ''>a''"
    by simp
  from strip_end_every_occurrence
    [of "''>a/0b/0''" IndexError "[62, 97] @ [47, 48] @ [98, 47, 48]" "[62, 97]" "[98, 47, 48]"
      "''>a''"]
    d nc ascii free
  show ?thesis
    by blast
qed

text \<open>
  A buffer that holds the terminator twice, received in one piece: both occurrences
  disappear, so the result is not the decoding of the buffer with exactly one of them
  cut out.
\<close>

theorem strip_end_two_occurrences:
  "contains ''/0'' ''>a/0b/0'' \<and>
   receive [''>a/0b/0''] = Some (Inr (map of_char ''>ab'')) \<and>
   \<not> strips_exactly_one ''>a/0b/0'' (strip_end ''>a/0b/0'')"
  by code_simp

text \<open>
  Two buffers outside ASCII: a byte that no UTF-8 sequence contains makes the framing
  step raise, and a two-byte sequence is one code point of the decoded text.
\<close>

lemma strip_end_not_utf8:
  "strip_end ([CHR 0xFF] @ ''/0'') = Inl UnicodeDecodeError \<and>
   receive [[CHR 0xFF] @ ''/0''] = Some (Inl UnicodeDecodeError) \<and>
   decode [CHR 0xC5, CHR 0xBF] = Inr [0x17F] \<and>
   decode [CHR 0xC3, CHR 0xA9] = Inr [0xE9] \<and>
   encode [CHR 0xE9] = [CHR 0xC3, CHR 0xA9]"
  by code_simp

subsection \<open>Rejection of a batch\<close>

lemma accepted_not_rejected:
  "(case p of Inl e \<Rightarrow> Inl e | Inr (error_headers, out) \<Rightarrow> Inr (Accepted error_headers out))
     \<noteq> Inr Rejected"
  by (simp split: sum.splits prod.splits)

lemma checkAndTranslate_rejected:
  "checkAndTranslate msg = Inr Rejected \<longleftrightarrow>
     (case msg_lines msg of l1 # l2 # rest \<Rightarrow> \<not> is_header l1 | _ \<Rightarrow> True)"
proof (cases "msg_lines msg")
  case Nil
  then show ?thesis
    by (simp add: checkAndTranslate_def)
next
  case outer: (Cons l1 ls)
  show ?thesis
  proof (cases ls)
    case Nil
    then show ?thesis
      using outer by (simp add: checkAndTranslate_def)
  next
    case (Cons l2 rest)
    then show ?thesis
      using outer
      by (simp add: checkAndTranslate_def is_header_def accepted_not_rejected
            del: parse_lines.simps)
  qed
qed

lemma encode_ascii: "\<forall>c\<in>set s. of_char c < (0x80::nat) \<Longrightarrow> encode s = s"
  by (induction s) (simp_all add: encode_def)

lemma encode_error_reply: "encode error_reply = error_reply"
  by (rule encode_ascii) (simp add: error_reply_def)

text \<open>
  Claim C6, as the code has it: \<open>checkAndTranslate\<close> yields \<open>Rejected\<close> exactly when the
  message has fewer than two non-empty lines (the bound 3 of the code counts the closing
  header that the parser has appended) or its first non-empty line does not start with
  \<open>>\<close> or \<open><\<close>; on \<open>Rejected\<close> the handler sends the fixed error string, followed by
  the terminator.
\<close>

theorem checkAndTranslate_rejected_iff:
  "(checkAndTranslate msg = Inr Rejected \<longleftrightarrow>
      (case msg_lines msg of l1 # l2 # rest \<Rightarrow> \<not> is_header l1 | _ \<Rightarrow> True)) \<and>
   (checkAndTranslate msg = Inr Rejected \<longrightarrow> reply msg = Inr (error_reply @ ''/0''))"
proof -
  have "reply msg = Inr (error_reply @ ''/0'')" if "checkAndTranslate msg = Inr Rejected"
    using that encode_error_reply by (simp add: reply_def)
  then show ?thesis
    using checkAndTranslate_rejected by simp
qed

theorem checkAndTranslate_rejected_iff_witness:
  "checkAndTranslate ''>a'' = Inr Rejected \<and>
   reply ''>a'' = Inr (error_reply @ ''/0'')"
  using checkAndTranslate_rejected_iff [of "''>a''"]
  by (simp add: msg_lines_def)

text \<open>
  A header followed by one line of sequence has two non-empty lines, fewer than three,
  and is not rejected.
\<close>

theorem checkAndTranslate_two_lines:
  "length (msg_lines ''>a\<newline>ACGT'') < 3 \<and>
   is_header (hd (msg_lines ''>a\<newline>ACGT'')) \<and>
   checkAndTranslate ''>a\<newline>ACGT'' = Inr (Accepted [] [''< a'', ''T$ACG''])"
  by code_simp

subsection \<open>The inverse transform: the loop and the selection\<close>

lemma length_BWT_step:
  "length rows = length word \<Longrightarrow> length (BWT_step word rows) = length word"
  by (simp add: BWT_step_def)

lemma set_BWT_step: "set (BWT_step word rows) = (\<lambda>(c, r). c # r) ` set (zip word rows)"
  by (auto simp: BWT_step_def)

lemma BWT_step_row_length:
  "\<forall>r\<in>set rows. length r = m \<Longrightarrow> \<forall>r\<in>set (BWT_step word rows). length r = Suc m"
  by (auto simp: set_BWT_step dest: set_zip_rightD)

lemma mset_last_BWT_step:
  assumes "length rows = length word" and "\<forall>r\<in>set rows. r \<noteq> []"
  shows "image_mset last (mset (BWT_step word rows)) = image_mset last (mset rows)"
proof -
  have "map (\<lambda>(c, r). last ([c] @ r)) (zip word rows) = map (last \<circ> snd) (zip word rows)"
    using assms(2) by (auto dest: set_zip_rightD)
  also have "\<dots> = map last (map snd (zip word rows))"
    by simp
  also have "map snd (zip word rows) = rows"
    using assms(1) by simp
  finally have "map (\<lambda>(c, r). last ([c] @ r)) (zip word rows) = map last rows" .
  then have "mset (map last (map2 (\<lambda>c row. [c] @ row) word rows)) = mset (map last rows)"
    by (simp add: case_prod_unfold comp_def)
  then show ?thesis
    by (simp add: BWT_step_def flip: mset_map)
qed

lemma first_column_facts:
  "length (first_column word) = length word"
  "\<forall>r\<in>set (first_column word). length r = Suc 0"
  "image_mset last (mset (first_column word)) = mset word"
  by (auto simp: first_column_def image_mset.compositionality comp_def)

lemma BWT_rows_invariant:
  "length ((BWT_step word ^^ k) (first_column word)) = length word \<and>
   (\<forall>r\<in>set ((BWT_step word ^^ k) (first_column word)). length r = Suc k) \<and>
   image_mset last (mset ((BWT_step word ^^ k) (first_column word))) = mset word"
proof (induction k)
  case 0
  then show ?case using first_column_facts by simp
next
  case (Suc k)
  let ?rows = "(BWT_step word ^^ k) (first_column word)"
  from Suc have len: "length ?rows = length word"
    and rl: "\<forall>r\<in>set ?rows. length r = Suc k"
    and ms: "image_mset last (mset ?rows) = mset word" by auto
  from rl have ne: "\<forall>r\<in>set ?rows. r \<noteq> []" by auto
  show ?case
    using length_BWT_step[OF len] BWT_step_row_length[OF rl, of word]
      mset_last_BWT_step[OF len ne] ms
    by simp
qed

lemma BWT_loop_unroll:
  assumes "length rows = n" and "\<forall>r\<in>set rows. length r = m" and "m \<le> n" and "0 < n"
    and "length word = n"
  shows "BWT_loop word rows = Inr ((BWT_step word ^^ (n - m)) rows)"
  using assms
proof (induction "n - m" arbitrary: rows m)
  case 0
  then obtain r0 rest where rows: "rows = r0 # rest" by (cases rows) auto
  with 0 have "length r0 = n" by auto
  with 0 rows show ?case by (subst BWT_loop.simps) simp
next
  case (Suc d)
  then obtain r0 rest where rows: "rows = r0 # rest" by (cases rows) auto
  with Suc have r0: "length r0 = m" and lt: "m < n" by auto
  have len': "length (BWT_step word rows) = n"
    using Suc.prems length_BWT_step[of rows word] by simp
  have rl': "\<forall>r\<in>set (BWT_step word rows). length r = Suc m"
    using BWT_step_row_length Suc.prems(2) by blast
  have d: "d = n - Suc m" using Suc.hyps(2) by simp
  have IH: "BWT_loop word (BWT_step word rows) = Inr ((BWT_step word ^^ (n - Suc m)) (BWT_step word rows))"
    using Suc.hyps(1)[OF d len' rl'] lt Suc.prems by simp
  have "BWT_loop word rows = BWT_loop word (BWT_step word rows)"
    using rows r0 lt Suc.prems(1) by (subst BWT_loop.simps) simp
  also note IH
  also have "(BWT_step word ^^ (n - Suc m)) (BWT_step word rows) = (BWT_step word ^^ (n - m)) rows"
  proof -
    have e: "n - m = Suc (n - Suc m)"
      using lt by simp
    show ?thesis
      unfolding e by (simp add: funpow_swap1)
  qed
  finally show ?case .
qed

lemma BWT_loop_first_column:
  assumes "word \<noteq> []"
  shows "BWT_loop word (first_column word)
         = Inr ((BWT_step word ^^ (length word - 1)) (first_column word))"
  using BWT_loop_unroll[of "first_column word" "length word" "Suc 0" word] assms
    first_column_facts[of word]
  by (simp add: Suc_leI)

lemma select_rows_filter:
  "\<forall>r\<in>set rows. r \<noteq> [] \<Longrightarrow> select_rows rows = Inr (filter (\<lambda>p. last p = CHR ''$'') rows)"
  by (induction rows) auto

lemma BWT_rows_facts:
  "length (BWT_rows word k) = length word"
  "\<forall>r\<in>set (BWT_rows word k). length r = Suc k"
  "image_mset last (mset (BWT_rows word k)) = mset word"
  using BWT_rows_invariant[where word = word and k = k] by (simp_all add: BWT_rows_def)

lemma BWT_loop_rows:
  "word \<noteq> [] \<Longrightarrow> BWT_loop word (first_column word) = Inr (BWT_rows word (length word - 1))"
  using BWT_loop_first_column by (simp add: BWT_rows_def)

lemma select_BWT_rows:
  "select_rows (BWT_rows word k) = Inr (filter (\<lambda>p. last p = CHR ''$'') (BWT_rows word k))"
proof (rule select_rows_filter)
  show "\<forall>r\<in>set (BWT_rows word k). r \<noteq> []"
    using BWT_rows_facts(2)[of word k] by auto
qed

lemma dollar_rows_empty_iff:
  "filter (\<lambda>p. last p = CHR ''$'') (BWT_rows word k) = [] \<longleftrightarrow> CHR ''$'' \<notin> set word"
proof -
  have "set word = last ` set (BWT_rows word k)"
    using BWT_rows_facts(3)[of word k] by (metis set_image_mset set_mset_mset)
  then show ?thesis
    unfolding filter_empty_conv by force
qed

lemma BWTtoDNA_rows:
  assumes "word \<noteq> []"
  shows "BWTtoDNA word =
     (case filter (\<lambda>p. last p = CHR ''$'') (BWT_rows word (length word - 1)) of
        [] \<Rightarrow> Inl IndexError
      | res # _ \<Rightarrow> Inr res)"
  by (simp only: BWTtoDNA_def BWT_loop_rows[OF assms] select_BWT_rows sum.case)

lemma BWTtoDNA_dollar:
  assumes "CHR ''$'' \<in> set word"
  shows "\<exists>res. BWTtoDNA word = Inr res \<and> length res = length word \<and> last res = CHR ''$''"
proof -
  let ?rows = "BWT_rows word (length word - 1)"
  let ?sel = "filter (\<lambda>p. last p = CHR ''$'') ?rows"
  from assms have ne: "word \<noteq> []"
    by auto
  have "?sel \<noteq> []"
    using dollar_rows_empty_iff[of word "length word - 1"] assms by blast
  then obtain res rest where sel: "?sel = res # rest"
    by (meson neq_Nil_conv)
  have "res \<in> set ?sel"
    unfolding sel by simp
  then have mem: "res \<in> set ?rows" and lst: "last res = CHR ''$''"
    by (simp_all only: set_filter mem_Collect_eq)
  have "length res = Suc (length word - 1)"
    using BWT_rows_facts(2)[of word "length word - 1"] mem by blast
  then have len: "length res = length word"
    using ne by simp
  have "BWTtoDNA word = Inr res"
    using BWTtoDNA_rows[OF ne] by (simp only: sel list.case)
  with len lst show ?thesis
    by blast
qed

text \<open>
  Claim C9: for an input word of length \<open>n\<close> with exactly one \<open>$\<close>, the loop condition
  holds before each of the first \<open>n - 1\<close> passes and fails after them, so the loop makes
  exactly \<open>n - 1\<close> passes and returns; every row then has length \<open>n\<close>, and the function
  returns a string.
\<close>

theorem BWT_loop_iterations:
  assumes "count_list word (CHR ''$'') = 1"
  shows "(\<forall>k < length word - 1. length (hd (BWT_rows word k)) < length (BWT_rows word k)) \<and>
         \<not> length (hd (BWT_rows word (length word - 1))) < length (BWT_rows word (length word - 1)) \<and>
         BWT_loop word (first_column word) = Inr (BWT_rows word (length word - 1)) \<and>
         (\<forall>row \<in> set (BWT_rows word (length word - 1)). length row = length word) \<and>
         (\<exists>res. BWTtoDNA word = Inr res \<and> length res = length word)"
proof -
  from assms have dollar: "CHR ''$'' \<in> set word"
    by (metis count_list_0_iff zero_neq_one)
  then have ne: "word \<noteq> []"
    by auto
  have hd_len: "length (hd (BWT_rows word k)) = Suc k" for k
  proof -
    have "BWT_rows word k \<noteq> []"
      using BWT_rows_facts(1)[of word k] ne by auto
    then have "hd (BWT_rows word k) \<in> set (BWT_rows word k)"
      by simp
    then show ?thesis
      using BWT_rows_facts(2)[of word k] by blast
  qed
  have c1: "\<forall>k < length word - 1. length (hd (BWT_rows word k)) < length (BWT_rows word k)"
  proof (intro allI impI)
    fix k
    assume "k < length word - 1"
    then have "Suc k < length word"
      by simp
    then show "length (hd (BWT_rows word k)) < length (BWT_rows word k)"
      using hd_len[of k] BWT_rows_facts(1)[of word k] by simp
  qed
  have c2: "\<not> length (hd (BWT_rows word (length word - 1)))
              < length (BWT_rows word (length word - 1))"
    using hd_len BWT_rows_facts(1) ne by simp
  have c3: "BWT_loop word (first_column word) = Inr (BWT_rows word (length word - 1))"
    by (rule BWT_loop_rows[OF ne])
  have e: "Suc (length word - 1) = length word"
    using ne by simp
  have c4: "\<forall>row \<in> set (BWT_rows word (length word - 1)). length row = length word"
    using BWT_rows_facts(2)[of word "length word - 1"] unfolding e .
  have c5: "\<exists>res. BWTtoDNA word = Inr res \<and> length res = length word"
    using BWTtoDNA_dollar[OF dollar] by blast
  show ?thesis
    by (intro conjI c1 c2 c3 c4 c5)
qed

theorem BWT_loop_iterations_witness:
  "count_list ''T$A'' (CHR ''$'') = 1 \<and>
   BWT_loop ''T$A'' (first_column ''T$A'') = Inr (BWT_rows ''T$A'' (length ''T$A'' - 1)) \<and>
   (\<exists>res. BWTtoDNA ''T$A'' = Inr res \<and> length res = length ''T$A'')"
  using BWT_loop_iterations [of "''T$A''"]
  by simp

text \<open>
  Claim C10: on a non-empty input without \<open>$\<close> the loop ends with rows none of which
  has \<open>$\<close> as its last character, the selection is empty and reading its element 0
  raises \<open>IndexError\<close>.
\<close>

theorem BWTtoDNA_without_dollar:
  assumes "word \<noteq> []" and "CHR ''$'' \<notin> set word"
  shows "\<exists>rows. BWT_loop word (first_column word) = Inr rows \<and>
           list_all (\<lambda>perm. last perm \<noteq> CHR ''$'') rows \<and>
           select_rows rows = Inr [] \<and>
           BWTtoDNA word = Inl IndexError"
proof -
  let ?rows = "BWT_rows word (length word - 1)"
  have sel: "filter (\<lambda>p. last p = CHR ''$'') ?rows = []"
    using dollar_rows_empty_iff assms(2) by simp
  then have "list_all (\<lambda>perm. last perm \<noteq> CHR ''$'') ?rows"
    by (simp add: filter_empty_conv list_all_iff)
  moreover have "select_rows ?rows = Inr []"
    using select_BWT_rows[of word "length word - 1"] sel by simp
  moreover have "BWTtoDNA word = Inl IndexError"
    using BWTtoDNA_rows[OF assms(1)] sel by simp
  ultimately show ?thesis
    using BWT_loop_rows[OF assms(1)] by blast
qed

theorem BWTtoDNA_without_dollar_witness:
  "''ACGT'' \<noteq> [] \<and> CHR ''$'' \<notin> set ''ACGT'' \<and> BWTtoDNA ''ACGT'' = Inl IndexError"
proof -
  have h1: "''ACGT'' \<noteq> []" and h2: "CHR ''$'' \<notin> set ''ACGT''"
    by simp_all
  from BWTtoDNA_without_dollar [OF h1 h2] have "BWTtoDNA ''ACGT'' = Inl IndexError"
    by blast
  with h1 h2 show ?thesis
    by blast
qed

subsection \<open>The batch parser, record by record\<close>

lemma body_of_simps:
  "body_of [] = []"
  "is_header l \<Longrightarrow> body_of (l # ls) = []"
  "\<not> is_header l \<Longrightarrow> body_of (l # ls) = strip_nl l @ body_of ls"
  by (simp_all add: body_of_def)

lemma parse_lines_emit:
  "0 < i \<Longrightarrow> is_header h' \<Longrightarrow>
     parse_lines i (ls @ [h']) errs out elem header
       = emit_all ((header, elem @ body_of ls) # records ls) errs out"
proof (induction ls arbitrary: i errs out elem header)
  case Nil
  then show ?case
    by (simp add: is_header_def body_of_simps split: sum.splits)
next
  case (Cons l ls)
  show ?case
  proof (cases "is_header l")
    case True
    then have hl: "startswith l ''>'' \<or> startswith l ''<''"
      by (simp add: is_header_def)
    have IH: "\<And>errs out. parse_lines (Suc i) (ls @ [h']) errs out [] l
                = emit_all ((l, body_of ls) # records ls) errs out"
      using Cons.IH[of "Suc i" _ _ "[]" l] Cons.prems(2) by simp
    show ?thesis
      using hl True Cons.prems(1)
      by (simp add: IH body_of_simps split: sum.splits del: emit_all.simps)
        (simp add: emit_all.simps(2)[of header])
  next
    case False
    then have hl: "\<not> (startswith l ''>'' \<or> startswith l ''<'')"
      by (simp add: is_header_def)
    show ?thesis
      using hl False Cons.IH[of "Suc i" errs out "elem @ strip_nl l" header] Cons.prems(2)
      by (simp add: body_of_simps)
  qed
qed

lemma checkAndTranslate_records:
  assumes "msg_lines msg = l1 # l2 # rest" and "is_header l1"
  shows "checkAndTranslate msg =
     (case emit_all (records (msg_lines msg)) [] [] of
        Inl e \<Rightarrow> Inl e
      | Inr (error_headers, out) \<Rightarrow> Inr (Accepted error_headers out))"
proof -
  have hl: "startswith l1 ''>'' \<or> startswith l1 ''<''"
    using assms(2) by (simp add: is_header_def)
  have first: "parse_lines 0 (l1 # xs) [] [] [] ''%%%'' = parse_lines (Suc 0) xs [] [] [] l1"
    for xs
    using hl by (simp add: startswith_def)
  have lines: "msg_lines msg @ [''<''] = l1 # ((l2 # rest) @ [''<''])"
    using assms(1) by simp
  have "parse_lines 0 (msg_lines msg @ [''<'']) [] [] [] ''%%%''
          = parse_lines (Suc 0) ((l2 # rest) @ [''<'']) [] [] [] l1"
    unfolding lines by (rule first)
  also have "\<dots> = emit_all ((l1, [] @ body_of (l2 # rest)) # records (l2 # rest)) [] []"
    by (rule parse_lines_emit) (simp_all add: is_header_def startswith_def)
  also have "\<dots> = emit_all (records (msg_lines msg)) [] []"
    using assms by simp
  finally have pl: "parse_lines 0 (msg_lines msg @ [''<'']) [] [] [] ''%%%''
                  = emit_all (records (msg_lines msg)) [] []" .
  have nrej: "\<not> (length (msg_lines msg @ [''<'']) < 3 \<or>
                 \<not> (startswith ((msg_lines msg @ [''<'']) ! 0) ''>'' \<or>
                    startswith ((msg_lines msg @ [''<'']) ! 0) ''<''))"
    using assms(1) hl by simp
  show ?thesis
    unfolding checkAndTranslate_def Let_def pl using nrej by (simp only: if_False)
qed

lemma map_fst_records: "map fst (records ls) = filter is_header ls"
  by (induction ls) auto

lemma emit_all_result:
  "emit_all rs errs out = Inr (es, os) \<Longrightarrow> \<forall>r\<in>set rs. is_header (fst r) \<Longrightarrow>
     es = errs @ map fst (filter (\<lambda>r. \<not> validate_input (snd r)) rs) \<and>
     os = out @ concat (map (\<lambda>r. [out_header (fst r), out_body (fst r) (snd r)])
                         (filter (\<lambda>r. validate_input (snd r)) rs))"
proof (induction rs arbitrary: errs out)
  case Nil
  then show ?case by simp
next
  case (Cons r rs)
  obtain h b where r: "r = (h, b)" by (cases r)
  from Cons.prems(2) r have hh: "startswith h ''>'' \<or> startswith h ''<''"
    and rest: "\<forall>r\<in>set rs. is_header (fst r)"
    by (simp_all add: is_header_def)
  show ?case
  proof (cases "validate_input b")
    case False
    then have "emit_all rs (errs @ [h]) out = Inr (es, os)"
      using Cons.prems(1) r by simp
    from Cons.IH[OF this rest] show ?thesis
      using False r by simp
  next
    case True
    show ?thesis
    proof (cases "startswith h ''>''")
      case gt: True
      then have "emit_all rs errs (out @ [''< '' @ drop 1 h, DNAtoBWT (b @ ''$'')]) = Inr (es, os)"
        using Cons.prems(1) r True by simp
      from Cons.IH[OF this rest] show ?thesis
        using True gt r by (simp add: out_header_def out_body_def)
    next
      case ngt: False
      with hh have lt: "startswith h ''<''" by simp
      from Cons.prems(1) r True ngt lt obtain dna where dna: "BWTtoDNA b = Inr dna"
        and "emit_all rs errs (out @ [''> '' @ drop 1 h, dna]) = Inr (es, os)"
        by (auto split: sum.splits)
      from Cons.IH[OF this(2) rest] show ?thesis
        using True ngt r dna by (simp add: out_header_def out_body_def)
    qed
  qed
qed

lemma emit_all_returns:
  "\<forall>r\<in>set rs. is_header (fst r) \<Longrightarrow>
   \<forall>r\<in>set rs. validate_input (snd r) \<and> startswith (fst r) ''<'' \<longrightarrow> CHR ''$'' \<in> set (snd r) \<Longrightarrow>
   \<exists>es os. emit_all rs errs out = Inr (es, os)"
proof (induction rs arbitrary: errs out)
  case Nil
  then show ?case by simp
next
  case (Cons r rs)
  obtain h b where r: "r = (h, b)" by (cases r)
  have IH: "\<And>errs out. \<exists>es os. emit_all rs errs out = Inr (es, os)"
    using Cons.IH Cons.prems by simp
  show ?case
  proof (cases "validate_input b \<and> \<not> startswith h ''>'' \<and> startswith h ''<''")
    case True
    then have "CHR ''$'' \<in> set b"
      using Cons.prems(2) r by simp
    then obtain dna where "BWTtoDNA b = Inr dna"
      using BWTtoDNA_dollar by blast
    then show ?thesis
      using True r IH[of errs "out @ [''> '' @ drop 1 h, dna]"] by simp
  next
    case False
    then show ?thesis
      using r IH[of "errs @ [h]" out] IH[of errs out]
        IH[of errs "out @ [''< '' @ drop 1 h, DNAtoBWT (b @ ''$'')]"]
      by auto
  qed
qed

lemma concat_pairs_length: "length (concat (map (\<lambda>r. [f r, g r]) vs)) = 2 * length vs"
  by (induction vs) auto

lemma concat_pairs_nth:
  "k < length vs \<Longrightarrow>
     concat (map (\<lambda>r. [f r, g r]) vs) ! (2 * k) = f (vs ! k) \<and>
     concat (map (\<lambda>r. [f r, g r]) vs) ! (2 * k + 1) = g (vs ! k)"
proof (induction vs arbitrary: k)
  case Nil
  then show ?case by simp
next
  case (Cons v vs)
  then show ?case by (cases k) auto
qed

lemma filter_partition_length:
  "length (filter (\<lambda>r. \<not> P r) rs) + length (filter P rs) = length rs"
  by (induction rs) auto

lemma startswith_join_header:
  "\<not> startswith (join [CHR 0x0A] (concat (map (\<lambda>r. [out_header (fst r), g r]) vs))) ''%%%''"
proof (cases vs)
  case Nil
  then show ?thesis by (simp add: startswith_def)
next
  case (Cons v vs')
  then show ?thesis
    by (auto simp: startswith_def out_header_def)
qed

lemma startswith_output_manager:
  "startswith (output_manager e (concat (map (\<lambda>r. [out_header (fst r), g r]) vs))) ''%%%''
     \<longleftrightarrow> 1 \<le> length e"
proof (cases e)
  case Nil
  then show ?thesis
    using startswith_join_header[of g vs] by (simp add: output_manager_def)
next
  case (Cons a e')
  then show ?thesis
    by (simp add: output_manager_def startswith_def)
qed

lemma accepted_emit_all:
  assumes "checkAndTranslate msg = Inr (Accepted error_headers out)"
  shows "emit_all (records (msg_lines msg)) [] [] = Inr (error_headers, out)"
proof -
  from assms have "checkAndTranslate msg \<noteq> Inr Rejected"
    by simp
  then obtain l1 l2 rest where l: "msg_lines msg = l1 # l2 # rest" and h: "is_header l1"
    unfolding checkAndTranslate_rejected by (auto split: list.splits)
  show ?thesis
    using assms unfolding checkAndTranslate_records[OF l h]
    by (auto split: sum.splits)
qed

lemma records_headers: "\<forall>r\<in>set (records ls). is_header (fst r)"
proof -
  have "set (map fst (records ls)) \<subseteq> {l. is_header l}"
    unfolding map_fst_records by auto
  then show ?thesis
    by auto
qed

lemma accepted_result:
  assumes "checkAndTranslate msg = Inr (Accepted error_headers out)"
  shows "error_headers = map fst (filter (\<lambda>r. \<not> validate_input (snd r)) (records (msg_lines msg)))"
    and "out = concat (map (\<lambda>r. [out_header (fst r), out_body (fst r) (snd r)])
                 (filter (\<lambda>r. validate_input (snd r)) (records (msg_lines msg))))"
  using emit_all_result[OF accepted_emit_all[OF assms] records_headers] by simp_all

text \<open>
  Whenever \<open>checkAndTranslate\<close> returns its pair, every header line is the header of exactly
  one record, the last header included, whose body runs to the end of the message; a
  record with an invalid body yields one error tag, any other record yields one
  transformed record of two lines, in the order of the input. So the number of error tags
  plus the number of transformed records is the number of header lines.
\<close>

lemma returned_pair_one_outcome_each:
  assumes "checkAndTranslate msg = Inr (Accepted error_headers out)"
  shows "error_headers
           = map fst (filter (\<lambda>r. \<not> validate_input (snd r)) (records (msg_lines msg))) \<and>
         out = concat (map (\<lambda>r. [out_header (fst r), out_body (fst r) (snd r)])
                 (filter (\<lambda>r. validate_input (snd r)) (records (msg_lines msg)))) \<and>
         map fst (records (msg_lines msg)) = filter is_header (msg_lines msg) \<and>
         length error_headers + length out div 2 = length (filter is_header (msg_lines msg))"
proof -
  let ?rs = "records (msg_lines msg)"
  note res = accepted_result[OF assms]
  have "length error_headers = length (filter (\<lambda>r. \<not> validate_input (snd r)) ?rs)"
    unfolding res(1) by simp
  moreover have "length out = 2 * length (filter (\<lambda>r. validate_input (snd r)) ?rs)"
    unfolding res(2) by (rule concat_pairs_length)
  moreover have "length ?rs = length (filter is_header (msg_lines msg))"
    using map_fst_records[of "msg_lines msg"] by (metis length_map)
  ultimately have "length error_headers + length out div 2
      = length (filter is_header (msg_lines msg))"
    using filter_partition_length[of "\<lambda>r. validate_input (snd r)" ?rs] by simp
  then show ?thesis
    using res map_fst_records by blast
qed

text \<open>
  Claim C8: the \<open>k\<close>-th transformed record of an accepted message comes from the \<open>k\<close>-th
  record with a valid body; its header carries \<open><\<close> when the input header carried \<open>>\<close>
  and \<open>>\<close> when the input header carried \<open><\<close>, followed by a blank and the unchanged
  label of the input header.
\<close>

theorem marker_flip:
  assumes "checkAndTranslate msg = Inr (Accepted error_headers out)"
    and "vs = filter (\<lambda>r. validate_input (snd r)) (records (msg_lines msg))"
    and "k < length vs"
  shows "length out = 2 * length vs \<and>
         (\<exists>label. fst (vs ! k) = CHR ''>'' # label \<and> out ! (2 * k) = ''< '' @ label \<or>
                  fst (vs ! k) = CHR ''<'' # label \<and> out ! (2 * k) = ''> '' @ label) \<and>
         out ! (2 * k + 1) = out_body (fst (vs ! k)) (snd (vs ! k))"
proof -
  note res = accepted_result[OF assms(1)]
  have out: "out = concat (map (\<lambda>r. [out_header (fst r), out_body (fst r) (snd r)]) vs)"
    unfolding assms(2) by (rule res(2))
  have len: "length out = 2 * length vs"
    unfolding out by (rule concat_pairs_length)
  have nth: "out ! (2 * k) = out_header (fst (vs ! k))"
    "out ! (2 * k + 1) = out_body (fst (vs ! k)) (snd (vs ! k))"
    unfolding out
    using concat_pairs_nth[OF assms(3), where f = "\<lambda>r. out_header (fst r)"
        and g = "\<lambda>r. out_body (fst r) (snd r)"]
    by simp_all
  have "vs ! k \<in> set (records (msg_lines msg))"
    using assms(2,3) by (metis filter_is_subset nth_mem subsetD)
  then have "is_header (fst (vs ! k))"
    using records_headers by blast
  then have "\<exists>label. fst (vs ! k) = CHR ''>'' # label \<and> out_header (fst (vs ! k)) = ''< '' @ label \<or>
                  fst (vs ! k) = CHR ''<'' # label \<and> out_header (fst (vs ! k)) = ''> '' @ label"
    by (cases "fst (vs ! k)") (auto simp: is_header_def startswith_def out_header_def)
  then show ?thesis
    using len nth by simp
qed

theorem marker_flip_witness:
  "checkAndTranslate ''>a\<newline>AC\<newline>>b\<newline>1'' = Inr (Accepted [''>b''] [''< a'', ''C$A'']) \<and>
   0 < length (filter (\<lambda>r. validate_input (snd r)) (records (msg_lines ''>a\<newline>AC\<newline>>b\<newline>1''))) \<and>
   length [''< a'', ''C$A'']
     = 2 * length (filter (\<lambda>r. validate_input (snd r)) (records (msg_lines ''>a\<newline>AC\<newline>>b\<newline>1'')))"
proof -
  have a: "checkAndTranslate ''>a\<newline>AC\<newline>>b\<newline>1'' = Inr (Accepted [''>b''] [''< a'', ''C$A''])"
    by code_simp
  have b: "0 < length (filter (\<lambda>r. validate_input (snd r))
                  (records (msg_lines ''>a\<newline>AC\<newline>>b\<newline>1'')))"
    by code_simp
  from marker_flip [OF a refl b] a b show ?thesis
    by blast
qed

text \<open>
  Where the parser does return: for a batch that passes the rejection test (two non-empty
  lines at least, the first one a header) and whose \<open><\<close> records with a valid body
  contain a \<open>$\<close>, the reply is assembled from one error tag for each invalid record and one
  transformed record for each valid one; with exactly one invalid record among \<open>N\<close> headers
  these are one error tag and \<open>N - 1\<close> transformed records. The assembled reply starts
  with \<open>%%%\<close> exactly when there is at least one error.
\<close>

lemma split_when_BWT_bodies_have_dollar:
  assumes "msg_lines msg = l1 # l2 # rest" and "is_header l1"
    and "\<forall>r\<in>set (records (msg_lines msg)).
           validate_input (snd r) \<and> startswith (fst r) ''<'' \<longrightarrow> CHR ''$'' \<in> set (snd r)"
  shows "\<exists>error_headers out.
           checkAndTranslate msg = Inr (Accepted error_headers out) \<and>
           reply msg = Inr (encode (output_manager error_headers out) @ ''/0'') \<and>
           length error_headers
             = length (filter (\<lambda>r. \<not> validate_input (snd r)) (records (msg_lines msg))) \<and>
           length out
             = 2 * length (filter (\<lambda>r. validate_input (snd r)) (records (msg_lines msg))) \<and>
           (startswith (output_manager error_headers out) ''%%%'' \<longleftrightarrow> 1 \<le> length error_headers) \<and>
           (length (filter (\<lambda>r. \<not> validate_input (snd r)) (records (msg_lines msg))) = 1 \<longrightarrow>
              length error_headers = 1 \<and>
              length out = 2 * (length (filter is_header (msg_lines msg)) - 1))"
proof -
  let ?rs = "records (msg_lines msg)"
  obtain es os where em: "emit_all ?rs [] [] = Inr (es, os)"
    using emit_all_returns[OF records_headers assms(3), of "[]" "[]"] by blast
  have acc: "checkAndTranslate msg = Inr (Accepted es os)"
    unfolding checkAndTranslate_records[OF assms(1,2)] em by simp
  note res = accepted_result[OF acc]
  have rep: "reply msg = Inr (encode (output_manager es os) @ ''/0'')"
    by (simp add: reply_def acc)
  have le: "length es = length (filter (\<lambda>r. \<not> validate_input (snd r)) ?rs)"
    unfolding res(1) by simp
  have lo: "length os = 2 * length (filter (\<lambda>r. validate_input (snd r)) ?rs)"
    unfolding res(2) by (rule concat_pairs_length)
  have sw: "startswith (output_manager es os) ''%%%'' \<longleftrightarrow> 1 \<le> length es"
    by (subst res(2)) (rule startswith_output_manager)
  have total: "length (filter (\<lambda>r. \<not> validate_input (snd r)) ?rs)
                 + length (filter (\<lambda>r. validate_input (snd r)) ?rs)
               = length (filter is_header (msg_lines msg))"
    using filter_partition_length[of "\<lambda>r. validate_input (snd r)" ?rs]
      map_fst_records[of "msg_lines msg"] by (metis length_map)
  have one: "length (filter (\<lambda>r. \<not> validate_input (snd r)) ?rs) = 1 \<longrightarrow>
               length es = 1 \<and> length os = 2 * (length (filter is_header (msg_lines msg)) - 1)"
    using le lo total by auto
  show ?thesis
    using acc rep le lo sw one by blast
qed

text \<open>
  Claim C5, against the code: a batch of two headers, the first with the valid body
  \<open>ACGT\<close> under the marker \<open><\<close>, the second with the invalid body \<open>1\<close>. The claim
  promises a reply with one error tag and one transformed record; the code validates
  \<open>ACGT\<close>, calls \<open>BWTtoDNA\<close> on it and ends with \<open>IndexError\<close>, so that no reply is built.
\<close>

theorem valid_body_without_dollar_no_reply:
  "msg_lines ''<a\<newline>ACGT\<newline>>b\<newline>1'' = [''<a'', ''ACGT'', ''>b'', ''1''] \<and>
   validate_input ''ACGT'' \<and>
   validate_input ''1'' = False \<and>
   BWTtoDNA ''ACGT'' = Inl IndexError \<and>
   checkAndTranslate ''<a\<newline>ACGT\<newline>>b\<newline>1'' = Inl IndexError \<and>
   reply ''<a\<newline>ACGT\<newline>>b\<newline>1'' = Inl IndexError"
  by code_simp

text \<open>
  Claim C7, against the code: a message of two headers that passes the rejection test,
  both bodies valid, the second under the marker \<open><\<close> and without \<open>$\<close>. The claim
  promises one outcome for each header; the code ends with \<open>IndexError\<close> when the closing
  header flushes the second record, and neither header has an outcome.
\<close>

theorem headers_without_outcome:
  "msg_lines ''>a\<newline>AC\<newline><b\<newline>ACGT'' = [''>a'', ''AC'', ''<b'', ''ACGT''] \<and>
   filter is_header (msg_lines ''>a\<newline>AC\<newline><b\<newline>ACGT'') = [''>a'', ''<b''] \<and>
   validate_input ''AC'' \<and>
   validate_input ''ACGT'' \<and>
   (checkAndTranslate ''>a\<newline>AC\<newline><b\<newline>ACGT'' = Inr Rejected) = False \<and>
   checkAndTranslate ''>a\<newline>AC\<newline><b\<newline>ACGT'' = Inl IndexError"
  by code_simp

subsection \<open>Rotations and the forward transform\<close>

lemma rot_rotate1: "w \<noteq> [] \<Longrightarrow> rotate1 (rot w) = w"
  by (simp add: rot_def)

lemma rot_props: "w \<noteq> [] \<Longrightarrow> rot w \<noteq> [] \<and> length (rot w) = length w"
  by (simp add: rot_def)

lemma funpow_rot_props:
  "w \<noteq> [] \<Longrightarrow>
     (rot ^^ k) w \<noteq> [] \<and> length ((rot ^^ k) w) = length w \<and> rotate k ((rot ^^ k) w) = w"
proof (induction k)
  case 0
  then show ?case by simp
next
  case (Suc k)
  let ?v = "(rot ^^ k) w"
  from Suc have v: "?v \<noteq> []" "length ?v = length w" "rotate k ?v = w"
    by simp_all
  have "rotate (Suc k) (rot ?v) = rotate k (rotate1 (rot ?v))"
    by (simp add: rotate1_rotate_swap)
  then have "rotate (Suc k) (rot ?v) = w"
    using v rot_rotate1 by simp
  then show ?case
    using rot_props[OF v(1)] v(2) by simp
qed

lemma funpow_rot_length: "w \<noteq> [] \<Longrightarrow> (rot ^^ length w) w = w"
  using funpow_rot_props[of w "length w"] by (metis rotate_length01 rotate_id mod_self)

lemma rotations_map: "rotations k w = map (\<lambda>i. (rot ^^ Suc i) w) [0..<k]"
proof (induction k arbitrary: w)
  case 0
  then show ?case by simp
next
  case (Suc k)
  have "map (\<lambda>i. (rot ^^ Suc i) w) [0..<Suc k]
          = (rot ^^ Suc 0) w # map (\<lambda>i. (rot ^^ Suc (Suc i)) w) [0..<k]"
    by (simp add: upt_conv_Cons map_Suc_upt[symmetric] del: upt_Suc funpow.simps)
  also have "\<dots> = rot w # map (\<lambda>i. (rot ^^ Suc i) (rot w)) [0..<k]"
    by (simp add: funpow_swap1)
  finally show ?case
    using Suc.IH[of "rot w"] by (simp add: Let_def del: upt_Suc funpow.simps)
qed

lemma map_rot_rotations: "map rot (rotations k w) = rotations k (rot w)"
  unfolding rotations_map by (simp add: funpow_swap1)

lemma rotations_snoc: "rotations (Suc k) w = rotations k w @ [(rot ^^ Suc k) w]"
  unfolding rotations_map by simp

lemma mset_rotations_rot:
  assumes "w \<noteq> []"
  shows "image_mset rot (mset (rotations (length w) w)) = mset (rotations (length w) w)"
proof -
  from assms obtain m where n: "length w = Suc m"
    by (cases w) auto
  have "(rot ^^ Suc m) (rot w) = rot w"
    using funpow_rot_length[OF assms] n by (simp add: funpow_swap1)
  then have "rotations (Suc m) (rot w) = rotations m (rot w) @ [rot w]"
    using rotations_snoc[of m "rot w"] by simp
  moreover have "rotations (Suc m) w = rot w # rotations m (rot w)"
    by (simp add: Let_def)
  ultimately have "mset (rotations (Suc m) (rot w)) = mset (rotations (Suc m) w)"
    by simp
  then show ?thesis
    unfolding n map_rot_rotations[symmetric] by simp
qed

lemma rotations_row:
  assumes "w \<noteq> []" and "r \<in> set (rotations k w)"
  shows "length r = length w" and "\<exists>j. rotate j r = w"
proof -
  from assms(2) obtain i where "r = (rot ^^ Suc i) w"
    unfolding rotations_map by auto
  then show "length r = length w" and "\<exists>j. rotate j r = w"
    using funpow_rot_props[OF assms(1), of "Suc i"] by blast+
qed

lemma word_in_rotations: "w \<noteq> [] \<Longrightarrow> w \<in> set (rotations (length w) w)"
proof -
  assume ne: "w \<noteq> []"
  then obtain m where n: "length w = Suc m"
    by (cases w) auto
  have "(rot ^^ Suc m) w \<in> set (rotations (Suc m) w)"
    unfolding rotations_snoc by simp
  then show ?thesis
    using funpow_rot_length[OF ne] n by simp
qed

lemma count_one_unique:
  "count_list w c = 1 \<Longrightarrow> i < length w \<Longrightarrow> j < length w \<Longrightarrow> w ! i = c \<Longrightarrow> w ! j = c
     \<Longrightarrow> i = j"
proof (induction w arbitrary: i j)
  case Nil
  then show ?case by simp
next
  case (Cons x xs)
  have pos: "k < length xs \<Longrightarrow> xs ! k = c \<Longrightarrow> 0 < count_list xs c" for k
    by (metis count_list_0_iff nth_mem not_gr_zero)
  show ?case
  proof (cases i)
    case 0
    note i0 = this
    show ?thesis
    proof (cases j)
      case 0
      with i0 show ?thesis by simp
    next
      case (Suc j')
      with Cons.prems i0 pos[of j'] show ?thesis by (auto split: if_splits)
    qed
  next
    case (Suc i')
    note i = this
    show ?thesis
    proof (cases j)
      case 0
      with Cons.prems i pos[of i'] show ?thesis by (auto split: if_splits)
    next
      case (Suc j')
      with Cons.prems i pos[of i'] Cons.IH[of i' j'] show ?thesis
        by (auto split: if_splits)
    qed
  qed
qed

lemma rotate_fixed_unique:
  assumes one: "count_list w c = 1" and eq: "rotate d w = w" and d: "d < length w"
  shows "d = 0"
proof -
  from one have "c \<in> set w"
    by (metis count_list_0_iff zero_neq_one)
  then obtain p where p: "p < length w" "w ! p = c"
    by (auto simp: in_set_conv_nth)
  have "rotate d w ! p = w ! ((d + p) mod length w)"
    using p(1) by (simp add: nth_rotate)
  then have "w ! ((d + p) mod length w) = c"
    using eq p(2) by simp
  moreover have "(d + p) mod length w < length w"
  proof -
    from p(1) have "0 < length w"
      by linarith
    then show ?thesis
      by (rule mod_less_divisor)
  qed
  ultimately have fixp: "(d + p) mod length w = p"
    using count_one_unique[OF one _ p(1) _ p(2)] by blast
  show ?thesis
  proof (cases "d + p < length w")
    case True
    with fixp show ?thesis
      by simp
  next
    case False
    then have "(d + p) mod length w = (d + p - length w) mod length w"
      by (simp add: le_mod_geq)
    also have "\<dots> = d + p - length w"
      using d p(1) by simp
    finally show ?thesis
      using fixp d False by simp
  qed
qed

lemma rotations_distinct:
  assumes one: "count_list w c = 1"
  shows "distinct (rotations (length w) w)"
proof -
  from one have ne: "w \<noteq> []"
    by auto
  let ?f = "\<lambda>i. (rot ^^ Suc i) w"
  have neq: "?f i \<noteq> ?f j" if "i < j" and "j < length w" for i j
  proof
    assume eq: "?f i = ?f j"
    have "rotate (Suc j) (?f i) = rotate (j - i) (rotate (Suc i) (?f i))"
      using that(1) by (simp add: rotate_rotate del: funpow.simps rotate_Suc)
    also have "\<dots> = rotate (j - i) w"
      using funpow_rot_props[OF ne, of "Suc i"] by (simp del: funpow.simps rotate_Suc)
    finally have "rotate (j - i) w = rotate (Suc j) (?f j)"
      using eq by simp
    then have "rotate (j - i) w = w"
      using funpow_rot_props[OF ne, of "Suc j"] by (simp del: funpow.simps rotate_Suc)
    moreover have "j - i < length w"
      using that by simp
    ultimately have "j - i = 0"
      using rotate_fixed_unique[OF one] by blast
    then show False
      using that(1) by simp
  qed
  have "inj_on ?f (set [0..<length w])"
  proof (rule inj_onI)
    fix i j
    assume "i \<in> set [0..<length w]" "j \<in> set [0..<length w]" "?f i = ?f j"
    then show "i = j"
      using neq[of i j] neq[of j i] by (cases i j rule: linorder_cases) auto
  qed
  then show ?thesis
    unfolding rotations_map by (simp add: distinct_map del: funpow.simps)
qed

lemma rotations_from_one:
  "rotations n w = map (\<lambda>i. (rot ^^ i) w) [1..<Suc n]"
proof -
  have "map (\<lambda>i. (rot ^^ i) w) (map Suc [0..<n]) = map (\<lambda>i. (rot ^^ Suc i) w) [0..<n]"
    by (simp add: comp_def del: funpow.simps)
  then show ?thesis
    unfolding rotations_map by (simp add: map_Suc_upt del: funpow.simps upt_Suc)
qed

text \<open>
  Claim C4: for a word with exactly one \<open>$\<close>, the \<open>n\<close> rotations obtained by moving the
  last character to the front once, twice, ..., \<open>n\<close> times (the last of them is the word
  itself) are pairwise distinct, so their sorted arrangement is strictly ascending, and
  \<open>DNAtoBWT\<close> returns the last characters of the rotations in that order.
\<close>

theorem DNAtoBWT_sorted_rotations:
  assumes "count_list word (CHR ''$'') = 1"
  shows "distinct (map (\<lambda>i. (rot ^^ i) word) [1..<Suc (length word)]) \<and>
         sorted_wrt (<) (sort (map (\<lambda>i. (rot ^^ i) word) [1..<Suc (length word)])) \<and>
         DNAtoBWT word
           = map last (sort (map (\<lambda>i. (rot ^^ i) word) [1..<Suc (length word)])) \<and>
         (rot ^^ length word) word = word \<and>
         length (DNAtoBWT word) = length word"
proof -
  let ?R = "map (\<lambda>i. (rot ^^ i) word) [1..<Suc (length word)]"
  from assms have ne: "word \<noteq> []"
    by auto
  have R: "rotations (length word) word = ?R"
    by (rule rotations_from_one)
  have d: "distinct ?R"
    using rotations_distinct[OF assms] unfolding R .
  then have s: "sorted_wrt (<) (sort ?R)"
    by (simp add: strict_sorted_iff del: funpow.simps upt_Suc)
  have b: "DNAtoBWT word = map last (sort ?R)"
    unfolding DNAtoBWT_def Let_def R ..
  have l: "length (DNAtoBWT word) = length word"
    unfolding b by (simp del: funpow.simps upt_Suc)
  show ?thesis
    using d s b l funpow_rot_length[OF ne] by (intro conjI)
qed

theorem DNAtoBWT_sorted_rotations_witness:
  "count_list ''AC$'' (CHR ''$'') = 1 \<and>
   DNAtoBWT ''AC$'' = map last (sort (map (\<lambda>i. (rot ^^ i) ''AC$'') [1..<Suc (length ''AC$'')])) \<and>
   length (DNAtoBWT ''AC$'') = length ''AC$''"
proof -
  have h: "count_list ''AC$'' (CHR ''$'') = 1"
    by simp
  from DNAtoBWT_sorted_rotations [OF h] h show ?thesis
    by blast
qed

subsection \<open>Round trip\<close>

lemma take_mono_lex: "(a :: string) \<le> b \<Longrightarrow> take k a \<le> take k b"
proof (induction k arbitrary: a b)
  case 0
  then show ?case by simp
next
  case (Suc k)
  then show ?case
    by (cases a; cases b) auto
qed

lemma sorted_map_take: "sorted (M :: string list) \<Longrightarrow> sorted (map (take k) M)"
  by (induction M) (auto simp: take_mono_lex)

lemma map2_map_map: "map2 h (map f xs) (map g xs) = map (\<lambda>x. h (f x) (g x)) xs"
  by (induction xs) auto

lemma sort_eq_map_take:
  fixes M :: "string list"
  assumes g: "\<forall>r\<in>set M. g r = take k (rot r)"
    and closed: "image_mset rot (mset M) = mset M"
    and srt: "sorted M"
  shows "sort (map g M) = map (take k) M"
proof (rule properties_for_sort)
  have "mset (map (take k) M) = image_mset (take k) (image_mset rot (mset M))"
    unfolding closed by simp
  also have "\<dots> = image_mset (\<lambda>r. take k (rot r)) (mset M)"
    by (simp add: image_mset.compositionality comp_def)
  also have "\<dots> = image_mset g (mset M)"
    using g by (intro image_mset_cong) simp
  finally show "mset (map (take k) M) = mset (map g M)"
    by simp
  show "sorted (map (take k) M)"
    using srt by (rule sorted_map_take)
qed

lemma BWT_rows_prefixes:
  assumes ne: "w \<noteq> []" and k: "k < length w"
  shows "BWT_rows (DNAtoBWT w) k = map (take (Suc k)) (sort (rotations (length w) w))"
  using k
proof (induction k)
  case 0
  let ?M = "sort (rotations (length w) w)"
  have closed: "image_mset rot (mset ?M) = mset ?M"
    using mset_rotations_rot[OF ne] by simp
  have "first_column (DNAtoBWT w) = sort (map (\<lambda>r. [last r]) ?M)"
    by (simp add: first_column_def DNAtoBWT_def comp_def)
  also have "\<dots> = map (take (Suc 0)) ?M"
    by (rule sort_eq_map_take[OF _ closed]) (simp_all add: rot_def)
  finally show ?case
    by (simp add: BWT_rows_def)
next
  case (Suc k)
  let ?M = "sort (rotations (length w) w)"
  have closed: "image_mset rot (mset ?M) = mset ?M"
    using mset_rotations_rot[OF ne] by simp
  have len: "\<forall>r\<in>set ?M. length r = length w"
    using rotations_row(1)[OF ne] by simp
  have IH: "BWT_rows (DNAtoBWT w) k = map (take (Suc k)) ?M"
    using Suc by simp
  have "BWT_rows (DNAtoBWT w) (Suc k) = BWT_step (DNAtoBWT w) (BWT_rows (DNAtoBWT w) k)"
    by (simp add: BWT_rows_def)
  also have "\<dots> = sort (map2 (\<lambda>c row. [c] @ row) (map last ?M) (map (take (Suc k)) ?M))"
    unfolding IH by (simp add: BWT_step_def DNAtoBWT_def)
  also have "\<dots> = sort (map (\<lambda>r. [last r] @ take (Suc k) r) ?M)"
    unfolding map2_map_map ..
  also have "\<dots> = map (take (Suc (Suc k))) ?M"
  proof (rule sort_eq_map_take[OF _ closed])
    show "\<forall>r\<in>set ?M. [last r] @ take (Suc k) r = take (Suc (Suc k)) (rot r)"
    proof
      fix r
      assume "r \<in> set ?M"
      then have "Suc k < length r"
        using len Suc.prems by simp
      then show "[last r] @ take (Suc k) r = take (Suc (Suc k)) (rot r)"
        by (simp add: rot_def take_butlast)
    qed
    show "sorted ?M"
      by simp
  qed
  finally show ?case .
qed

lemma length_DNAtoBWT: "length (DNAtoBWT w) = length w"
  by (simp add: DNAtoBWT_def rotations_map)

lemma BWT_rows_matrix:
  assumes ne: "w \<noteq> []"
  shows "BWT_rows (DNAtoBWT w) (length (DNAtoBWT w) - 1) = sort (rotations (length w) w)"
proof -
  let ?M = "sort (rotations (length w) w)"
  have l: "length (DNAtoBWT w) = length w"
    by (simp add: DNAtoBWT_def rotations_map)
  have len: "\<forall>r\<in>set ?M. length r = length w"
    using rotations_row(1)[OF ne] by simp
  have k: "length w - 1 < length w" and e: "Suc (length w - 1) = length w"
    using ne by simp_all
  have "BWT_rows (DNAtoBWT w) (length w - 1) = map (take (length w)) ?M"
    using BWT_rows_prefixes[OF ne k] unfolding e .
  also have "\<dots> = ?M"
    using len by (intro map_idI) simp
  finally show ?thesis
    unfolding l .
qed

lemma mset_rotate_eq: "mset (rotate n xs) = mset xs"
proof -
  let ?k = "n mod length xs"
  have whole: "mset (take ?k xs) + mset (drop ?k xs) = mset xs"
    by (metis append_take_drop_id mset_append)
  have "mset (rotate n xs) = mset (drop ?k xs) + mset (take ?k xs)"
    by (simp add: rotate_drop_take)
  also have "\<dots> = mset (take ?k xs) + mset (drop ?k xs)"
    by (rule add.commute)
  finally show ?thesis
    unfolding whole .
qed

lemma mod_shift_last:
  assumes "d < n" and "(d + (n - 1)) mod n = n - 1"
  shows "d = (0::nat)"
proof (rule ccontr)
  assume "d \<noteq> 0"
  then have ge: "n \<le> d + (n - 1)"
    using assms(1) by linarith
  have lt: "d + (n - 1) - n < n"
    using assms(1) by linarith
  have "(d + (n - 1)) mod n = (d + (n - 1) - n) mod n"
    using ge by (rule le_mod_geq)
  also have "\<dots> = d + (n - 1) - n"
    using lt by (rule mod_less)
  finally have "d + (n - 1) - n = n - 1"
    using assms(2) by simp
  then show False
    using assms(1) ge by linarith
qed

lemma dollar_row_is_word:
  assumes nd: "CHR ''$'' \<notin> set seq"
    and r: "r \<in> set (rotations k (seq @ ''$''))"
    and lr: "last r = CHR ''$''"
  shows "r = seq @ ''$''"
proof -
  let ?w = "seq @ ''$''"
  let ?n = "length ?w"
  have ne: "?w \<noteq> []"
    by simp
  from rotations_row[OF ne r] obtain j where len: "length r = ?n" and j: "rotate j r = ?w"
    by blast
  have rne: "r \<noteq> []"
    using len by auto
  have "mset r = mset ?w"
    using j mset_rotate_eq[of j r] by simp
  then have "count_list r (CHR ''$'') = count_list ?w (CHR ''$'')"
    by (metis count_mset)
  also have "\<dots> = 1"
    using nd by simp
  finally have one: "count_list r (CHR ''$'') = 1" .
  let ?d = "j mod ?n"
  have "rotate (j mod length r) r = rotate j r"
    by (rule rotate_conv_mod[symmetric])
  then have d1: "rotate ?d r = ?w"
    unfolding len j .
  have d2: "?d < ?n"
    by simp
  note d = d1 d2
  have last_pos: "r ! (?n - 1) = CHR ''$''"
    using lr rne len by (simp add: last_conv_nth)
  have "?w ! (?n - 1) = CHR ''$''"
    by simp
  then have "rotate ?d r ! (?n - 1) = CHR ''$''"
    unfolding d(1) .
  then have "r ! ((?d + (?n - 1)) mod ?n) = CHR ''$''"
    using len by (simp add: nth_rotate)
  moreover have "(?d + (?n - 1)) mod ?n < length r"
    using len by simp
  moreover have "?n - 1 < length r"
    using len by simp
  ultimately have fixp: "(?d + (?n - 1)) mod ?n = ?n - 1"
    using count_one_unique[OF one _ _ _ last_pos] by blast
  have "?d = 0"
    using d2 fixp by (rule mod_shift_last)
  then show ?thesis
    using d(1) by simp
qed

lemma select_word:
  assumes "w \<in> set M" and "last w = c" and "\<forall>r\<in>set M. last r = c \<longrightarrow> r = w"
  shows "(case filter (\<lambda>p. last p = c) M of [] \<Rightarrow> Inl IndexError | res # _ \<Rightarrow> Inr res)
           = Inr w"
proof -
  let ?sel = "filter (\<lambda>p. last p = c) M"
  have "w \<in> set ?sel"
    using assms(1,2) by simp
  then obtain res rest where sel: "?sel = res # rest"
    by (cases ?sel) auto
  then have "res \<in> set ?sel"
    by simp
  then have "res = w"
    using assms(3) by simp
  then show ?thesis
    unfolding sel by simp
qed

lemma BWTtoDNA_DNAtoBWT:
  assumes nd: "CHR ''$'' \<notin> set seq"
  shows "BWTtoDNA (DNAtoBWT (seq @ ''$'')) = Inr (seq @ ''$'')"
proof -
  define w where "w = seq @ ''$''"
  let ?M = "sort (rotations (length w) w)"
  have ne: "w \<noteq> []"
    by (simp add: w_def)
  have lw: "last w = CHR ''$''"
    by (simp add: w_def)
  have Lne: "DNAtoBWT w \<noteq> []"
    using length_DNAtoBWT[of w] ne by (metis length_0_conv)
  have mem: "w \<in> set ?M"
    using word_in_rotations[OF ne] by (simp only: set_sort)
  have uniq: "\<forall>r\<in>set ?M. last r = CHR ''$'' \<longrightarrow> r = w"
  proof (intro ballI impI)
    fix r
    assume r: "r \<in> set ?M" and l: "last r = CHR ''$''"
    from r have "r \<in> set (rotations (length w) (seq @ ''$''))"
      by (simp only: set_sort w_def)
    from dollar_row_is_word[OF nd this l] show "r = w"
      by (simp only: w_def)
  qed
  have "BWTtoDNA (DNAtoBWT w)
          = (case filter (\<lambda>p. last p = CHR ''$'') ?M of
               [] \<Rightarrow> Inl IndexError
             | res # _ \<Rightarrow> Inr res)"
    using BWTtoDNA_rows[OF Lne] unfolding BWT_rows_matrix[OF ne] .
  also have "\<dots> = Inr w"
    using mem lw uniq by (rule select_word)
  finally show ?thesis
    unfolding w_def .
qed

text \<open>
  Claim C1: for every non-empty sequence over the alphabet of the validator, the inverse
  transform applied to the forward transform of the sequence with \<open>$\<close> appended returns
  the sequence with \<open>$\<close> appended.
\<close>

theorem roundtrip:
  assumes "seq \<noteq> []" and "set seq \<subseteq> set validDNA"
  shows "BWTtoDNA (DNAtoBWT (seq @ ''$'')) = Inr (seq @ ''$'')"
proof -
  have "CHR ''$'' \<notin> set validDNA"
    by (simp add: validDNA_def)
  then have "CHR ''$'' \<notin> set seq"
    using assms(2) by blast
  then show ?thesis
    by (rule BWTtoDNA_DNAtoBWT)
qed

theorem roundtrip_witness:
  "''ACGT'' \<noteq> [] \<and> set ''ACGT'' \<subseteq> set validDNA \<and>
   BWTtoDNA (DNAtoBWT (''ACGT'' @ ''$'')) = Inr (''ACGT'' @ ''$'')"
proof -
  have h1: "''ACGT'' \<noteq> []" and h2: "set ''ACGT'' \<subseteq> set validDNA"
    by (simp_all add: validDNA_def)
  from roundtrip [OF h1 h2] h1 h2 show ?thesis
    by blast
qed

end
